theory Spec2Isabelle
  imports Complex_Main "HOL-Library.AList"
begin

section \<open>ID3 decision-tree learning (treehe1.py)\<close>

text \<open>
  A shallow embedding of \<^verbatim>\<open>treehe1.py\<close>.

  \<^item> An example is a list of values, the class label last. Values are of an arbitrary
    type \<open>'a\<close>, compared by equality only.
  \<^item> Every exception of the source is a value: a function that can raise returns
    \<open>py_error + 'a\<close>, with \<open>Inl\<close> for the exception.
  \<^item> A Python \<open>dict\<close> is an association list in insertion order (the order in which
    Python iterates over it); \<open>d[k] = v\<close> is \<open>AList.update\<close>.
  \<^item> Python leaves the iteration order of a \<open>set\<close> unspecified. The model takes it as
    the parameter \<open>iter\<close>: \<open>iter xs\<close> is the sequence in which \<open>set(xs)\<close> is
    iterated. All that is known of it is \<open>set_iter_ok\<close>.
  \<^item> The arithmetic of Python floats is a parameter \<open>fl\<close> of the model, a record of
    the operations that the source uses. What is proved of the trees holds for every
    such arithmetic. Two arithmetics are defined: \<open>exact_arithmetic\<close>, over the reals
    without rounding, and \<open>binary64\<close>, with the rounding of IEEE 754 doubles.
  \<^item> \<open>print_tree\<close>, which only prints, is not modelled.
\<close>

subsection \<open>Python primitives\<close>

datatype py_error = ValueError | KeyError | IndexError | ZeroDivisionError

text \<open>\<open>LookupError\<close> is the common base class of \<open>KeyError\<close> and \<open>IndexError\<close>.\<close>

fun is_LookupError :: "py_error \<Rightarrow> bool" where
  "is_LookupError KeyError = True"
| "is_LookupError IndexError = True"
| "is_LookupError ValueError = False"
| "is_LookupError ZeroDivisionError = False"

definition set_iter_ok :: "('a list \<Rightarrow> 'a list) \<Rightarrow> bool" where
  "set_iter_ok iter = (\<forall>xs. distinct (iter xs) \<and> set (iter xs) = set xs)"

text \<open>\<open>xs[i]\<close>: a negative index counts from the end, an index out of range raises.\<close>

definition py_index :: "'a list \<Rightarrow> int \<Rightarrow> py_error + 'a" where
  "py_index xs i =
     (if 0 \<le> i \<and> i < int (length xs) then Inr (xs ! nat i)
      else if i < 0 \<and> - int (length xs) \<le> i then Inr (xs ! nat (int (length xs) + i))
      else Inl IndexError)"

text \<open>\<open>d[k]\<close> and \<open>d.pop(k)\<close> (the model of \<open>pop\<close> returns the dictionary that is left).\<close>

definition dict_get :: "('k \<times> 'v) list \<Rightarrow> 'k \<Rightarrow> py_error + 'v" where
  "dict_get d k = (case map_of d k of None \<Rightarrow> Inl KeyError | Some v \<Rightarrow> Inr v)"

definition dict_pop :: "('k \<times> 'v) list \<Rightarrow> 'k \<Rightarrow> py_error + ('k \<times> 'v) list" where
  "dict_pop d k = (case map_of d k of None \<Rightarrow> Inl KeyError | Some v \<Rightarrow> Inr (AList.delete k d))"

text \<open>\<open>max(xs, key = key)\<close>: the first element whose key is maximal; \<open>ValueError\<close> on
  an empty sequence.\<close>

fun py_max :: "('a \<Rightarrow> nat) \<Rightarrow> 'a list \<Rightarrow> py_error + 'a" where
  "py_max key [] = Inl ValueError"
| "py_max key (x # xs) = Inr (foldl (\<lambda>best y. if key best < key y then y else best) x xs)"

text \<open>The comprehension \<open>[example[i] for example in examples]\<close>.\<close>

fun column :: "'a list list \<Rightarrow> int \<Rightarrow> py_error + 'a list" where
  "column [] i = Inr []"
| "column (example # examples) i =
     (case py_index example i of
        Inl err \<Rightarrow> Inl err
      | Inr x \<Rightarrow> (case column examples i of Inl err \<Rightarrow> Inl err | Inr xs \<Rightarrow> Inr (x # xs)))"

subsection \<open>The tree\<close>

text \<open>
  \<open>TreeNode\<close>: \<open>split_feature\<close> is \<open>-1\<close> at a leaf, \<open>children\<close> is the dictionary
  from feature values to child nodes. A child is \<open>None\<close> or a node, as \<open>classify\<close> and
  \<open>print_tree\<close> test \<open>if child_node\<close>. The field \<open>majority_class\<close> is called
  \<open>majority_class_field\<close>, the function of the same name keeps it.
\<close>

datatype 'a tree_node =
  TreeNode (split_feature: int)
           (children: "('a \<times> 'a tree_node option) list")
           (majority_class_field: 'a)

subsection \<open>Classes of a list of examples\<close>

definition majority_class :: "('a list \<Rightarrow> 'a list) \<Rightarrow> 'a list list \<Rightarrow> py_error + 'a" where
  "majority_class iter examples =
     (case column examples (- 1) of
        Inl err \<Rightarrow> Inl err
      | Inr classes \<Rightarrow> py_max (count_list classes) (iter classes))"

definition same_class :: "('a list \<Rightarrow> 'a list) \<Rightarrow> 'a list list \<Rightarrow> py_error + bool" where
  "same_class iter examples =
     (case column examples (- 1) of
        Inl err \<Rightarrow> Inl err
      | Inr classes \<Rightarrow> Inr (length (iter classes) = 1))"

subsection \<open>Floating-point arithmetic\<close>

text \<open>
  The operations on Python floats that the source uses: \<open>float(n)\<close> (also for the
  literals \<open>0.0\<close>, \<open>2.0\<close> and \<open>-1.0\<close>), \<open>+\<close>, \<open>*\<close>, \<open>/\<close>, \<open>math.log(x, base)\<close>
  and \<open><\<close>. \<open>math.log\<close> raises on an argument that is not positive; the source
  calls it on the quotient of two positive counts only.
\<close>

record 'f py_float =
  ffloat :: "int \<Rightarrow> 'f"
  fadd :: "'f \<Rightarrow> 'f \<Rightarrow> 'f"
  fmul :: "'f \<Rightarrow> 'f \<Rightarrow> 'f"
  fdiv :: "'f \<Rightarrow> 'f \<Rightarrow> 'f"
  flog :: "'f \<Rightarrow> 'f \<Rightarrow> 'f"
  fless :: "'f \<Rightarrow> 'f \<Rightarrow> bool"

text \<open>Arithmetic without rounding, over the reals.\<close>

definition exact_arithmetic :: "real py_float" where
  "exact_arithmetic =
     \<lparr>ffloat = of_int, fadd = (+), fmul = (*), fdiv = (/),
      flog = (\<lambda>x base. log base x), fless = (<)\<rparr>"

text \<open>
  IEEE 754 binary64 (the Python float): a result is rounded to the nearest number with
  a significand of 53 bits, a tie to the one whose significand is even. The range of
  the exponent is not modelled (no overflow, no subnormal numbers). \<open>math.log(x, base)\<close>
  is the quotient of the logarithms of the C library, taken here as correctly rounded.
\<close>

definition round_even :: "real \<Rightarrow> int" where
  "round_even y =
     (let f = \<lfloor>y\<rfloor> in
      if y - of_int f < 1 / 2 then f
      else if 1 / 2 < y - of_int f then f + 1
      else if even f then f else f + 1)"

definition binary64_round :: "real \<Rightarrow> real" where
  "binary64_round x =
     (if x = 0 then 0
      else (let e = \<lfloor>log 2 \<bar>x\<bar>\<rfloor> - 52
            in of_int (round_even (x / 2 powi e)) * 2 powi e))"

definition binary64 :: "real py_float" where
  "binary64 =
     \<lparr>ffloat = (\<lambda>n. binary64_round (of_int n)),
      fadd = (\<lambda>x y. binary64_round (x + y)),
      fmul = (\<lambda>x y. binary64_round (x * y)),
      fdiv = (\<lambda>x y. binary64_round (x / y)),
      flog = (\<lambda>x base. binary64_round (binary64_round (ln x) / binary64_round (ln base))),
      fless = (<)\<rparr>"

subsection \<open>Entropy and the choice of the feature\<close>

fun filter_examples :: "'a list list \<Rightarrow> int \<Rightarrow> 'a \<Rightarrow> py_error + 'a list list" where
  "filter_examples [] feature_index feature_value = Inr []"
| "filter_examples (example # examples) feature_index feature_value =
     (case py_index example feature_index of
        Inl err \<Rightarrow> Inl err
      | Inr x \<Rightarrow>
          (case filter_examples examples feature_index feature_value of
             Inl err \<Rightarrow> Inl err
           | Inr rest \<Rightarrow> Inr (if x = feature_value then example # rest else rest)))"

definition entropy ::
  "'f py_float \<Rightarrow> ('a list \<Rightarrow> 'a list) \<Rightarrow> 'a list list \<Rightarrow> py_error + 'f" where
  "entropy fl iter examples =
     (case column examples (- 1) of
        Inl err \<Rightarrow> Inl err
      | Inr classes \<Rightarrow>
          (let class_counts = map (count_list classes) (iter classes);
               class_sum = sum_list class_counts
           in Inr (foldl (\<lambda>e class_count.
                     if class_count > 0
                     then (let class_frac =
                                 fdiv fl (ffloat fl (int class_count)) (ffloat fl (int class_sum))
                           in fadd fl e
                                (fmul fl (fmul fl (ffloat fl (- 1)) class_frac)
                                   (flog fl class_frac (ffloat fl 2))))
                     else e) (ffloat fl 0) class_counts)))"

text \<open>The loop of \<open>split_entropy\<close> over the values of the feature, \<open>se\<close> the sum so far.
  The quotient is taken before \<open>entropy\<close> is called, and raises on an empty \<open>examples\<close>.\<close>

fun split_entropy_loop ::
  "'f py_float \<Rightarrow> ('a list \<Rightarrow> 'a list) \<Rightarrow> int \<Rightarrow> 'a list list \<Rightarrow> 'a list \<Rightarrow> 'f
     \<Rightarrow> py_error + 'f" where
  "split_entropy_loop fl iter feature_index examples [] se = Inr se"
| "split_entropy_loop fl iter feature_index examples (feature_value # feature_values) se =
     (case filter_examples examples feature_index feature_value of
        Inl err \<Rightarrow> Inl err
      | Inr split_examples \<Rightarrow>
          if length examples = 0 then Inl ZeroDivisionError
          else (case entropy fl iter split_examples of
                  Inl err \<Rightarrow> Inl err
                | Inr h \<Rightarrow>
                    split_entropy_loop fl iter feature_index examples feature_values
                      (fadd fl se
                         (fmul fl
                            (fdiv fl (ffloat fl (int (length split_examples)))
                               (ffloat fl (int (length examples))))
                            h))))"

definition split_entropy ::
  "'f py_float \<Rightarrow> ('a list \<Rightarrow> 'a list) \<Rightarrow> int \<Rightarrow> (int \<times> 'a list) list \<Rightarrow> 'a list list
     \<Rightarrow> py_error + 'f" where
  "split_entropy fl iter feature_index features examples =
     (case dict_get features feature_index of
        Inl err \<Rightarrow> Inl err
      | Inr feature_values \<Rightarrow>
          split_entropy_loop fl iter feature_index examples feature_values (ffloat fl 0))"

text \<open>The loop of \<open>best_feature\<close> over the keys of \<open>features\<close>.\<close>

fun best_feature_loop ::
  "'f py_float \<Rightarrow> ('a list \<Rightarrow> 'a list) \<Rightarrow> (int \<times> 'a list) list \<Rightarrow> 'a list list \<Rightarrow> int list
     \<Rightarrow> int \<Rightarrow> 'f \<Rightarrow> py_error + int" where
  "best_feature_loop fl iter features examples [] best_feature_index best_entropy =
     Inr best_feature_index"
| "best_feature_loop fl iter features examples (feature_index # rest) best_feature_index
       best_entropy =
     (case split_entropy fl iter feature_index features examples of
        Inl err \<Rightarrow> Inl err
      | Inr se \<Rightarrow>
          if fless fl se best_entropy
          then best_feature_loop fl iter features examples rest feature_index se
          else best_feature_loop fl iter features examples rest best_feature_index best_entropy)"

definition best_feature ::
  "'f py_float \<Rightarrow> ('a list \<Rightarrow> 'a list) \<Rightarrow> (int \<times> 'a list) list \<Rightarrow> 'a list list
     \<Rightarrow> py_error + int" where
  "best_feature fl iter features examples =
     best_feature_loop fl iter features examples (map fst features) (- 1) (ffloat fl 2)"

subsection \<open>Building the tree\<close>

text \<open>
  \<open>build_tree_1\<close>, and \<open>build_children\<close> for its loop over the values of the chosen
  feature: \<open>acc\<close> is \<open>tree_node.children\<close> so far.
\<close>

function build_tree_1 ::
    "'f py_float \<Rightarrow> ('a list \<Rightarrow> 'a list) \<Rightarrow> 'a list list \<Rightarrow> (int \<times> 'a list) list
       \<Rightarrow> py_error + 'a tree_node"
  and build_children ::
    "'f py_float \<Rightarrow> ('a list \<Rightarrow> 'a list) \<Rightarrow> 'a list list \<Rightarrow> int \<Rightarrow> (int \<times> 'a list) list
       \<Rightarrow> 'a list \<Rightarrow> ('a \<times> 'a tree_node option) list
       \<Rightarrow> py_error + ('a \<times> 'a tree_node option) list"
  where
  "build_tree_1 fl iter examples features =
     (case majority_class iter examples of
        Inl err \<Rightarrow> Inl err
      | Inr maj \<Rightarrow>
          (case same_class iter examples of
             Inl err \<Rightarrow> Inl err
           | Inr same \<Rightarrow>
               if same then Inr (TreeNode (- 1) [] maj)
               else if features = [] then Inr (TreeNode (- 1) [] maj)
               else (case best_feature fl iter features examples of
                       Inl err \<Rightarrow> Inl err
                     | Inr best_feature_index \<Rightarrow>
                         (case dict_pop features best_feature_index of
                            Inl err \<Rightarrow> Inl err
                          | Inr remaining_features \<Rightarrow>
                              (case dict_get features best_feature_index of
                                 Inl err \<Rightarrow> Inl err
                               | Inr feature_values \<Rightarrow>
                                   (case build_children fl iter examples best_feature_index
                                           remaining_features feature_values [] of
                                      Inl err \<Rightarrow> Inl err
                                    | Inr ch \<Rightarrow> Inr (TreeNode best_feature_index ch maj)))))))"
| "build_children fl iter examples best_feature_index remaining_features [] acc = Inr acc"
| "build_children fl iter examples best_feature_index remaining_features
       (feature_value # feature_values) acc =
     (case filter_examples examples best_feature_index feature_value of
        Inl err \<Rightarrow> Inl err
      | Inr split_examples \<Rightarrow>
          (case build_tree_1 fl iter split_examples remaining_features of
             Inl err \<Rightarrow> Inl err
           | Inr child \<Rightarrow>
               build_children fl iter examples best_feature_index remaining_features
                 feature_values (AList.update feature_value (Some child) acc)))"
  by pat_completeness auto

termination
proof -
  have shorter: "length r < length d" if "dict_pop d k = Inr r"
    for d r :: "('k \<times> 'v) list" and k
  proof -
    from that obtain v where "map_of d k = Some v" and r: "r = AList.delete k d"
      by (auto simp: dict_pop_def split: option.splits)
    then have "(k, v) \<in> set d"
      by (simp add: map_of_SomeD)
    then show ?thesis
      unfolding r AList.delete_eq by (rule length_filter_less) simp
  qed
  show ?thesis
    by (relation "inv_image (less_than <*lex*> less_than)
          (\<lambda>x. case x of
                 Inl (fl, iter, examples, features) \<Rightarrow> (length features, 0)
               | Inr (fl, iter, examples, b, remaining, vs, acc) \<Rightarrow>
                   (length remaining, Suc (length vs)))")
       (auto dest: shorter)
qed

text \<open>The loop of \<open>build_tree\<close> that collects the set of values of every feature index.\<close>

fun collect_features ::
  "('a list \<Rightarrow> 'a list) \<Rightarrow> 'a list list \<Rightarrow> int list \<Rightarrow> (int \<times> 'a list) list
     \<Rightarrow> py_error + (int \<times> 'a list) list" where
  "collect_features iter examples [] features = Inr features"
| "collect_features iter examples (feature_index # rest) features =
     (case column examples feature_index of
        Inl err \<Rightarrow> Inl err
      | Inr col \<Rightarrow>
          collect_features iter examples rest (AList.update feature_index (iter col) features))"

text \<open>\<open>build_tree\<close>; \<open>range(len(examples[0]) - 1)\<close> is empty when the first example is
  empty, as the truncated subtraction makes \<open>[0..<length example0 - 1]\<close>.\<close>

definition build_tree ::
  "'f py_float \<Rightarrow> ('a list \<Rightarrow> 'a list) \<Rightarrow> 'a list list \<Rightarrow> py_error + 'a tree_node option" where
  "build_tree fl iter examples =
     (case examples of
        [] \<Rightarrow> Inr None
      | example0 # _ \<Rightarrow>
          (case collect_features iter examples (map int [0..<length example0 - 1]) [] of
             Inl err \<Rightarrow> Inl err
           | Inr features \<Rightarrow>
               (case build_tree_1 fl iter examples features of
                  Inl err \<Rightarrow> Inl err
                | Inr tree_node \<Rightarrow> Inr (Some tree_node))))"

subsection \<open>Classification\<close>

function classify :: "'a tree_node \<Rightarrow> 'a list \<Rightarrow> py_error + 'a" where
  "classify (TreeNode sf ch maj) inst =
     (if sf = - 1 then Inr maj
      else (case py_index inst sf of
              Inl err \<Rightarrow> Inl err
            | Inr v \<Rightarrow>
                (case map_of ch v of
                   None \<Rightarrow> Inl KeyError
                 | Some None \<Rightarrow> Inr maj
                 | Some (Some child_node) \<Rightarrow> classify child_node inst)))"
  by pat_completeness auto

termination
proof -
  have smaller: "size c < size (TreeNode sf ch maj)" if "map_of ch v = Some (Some c)"
    for c :: "'a tree_node" and sf ch maj v
  proof -
    have "(v, Some c) \<in> set ch"
      using that by (rule map_of_SomeD)
    then show ?thesis
      by (induction ch) auto
  qed
  show ?thesis
    by (relation "measure (\<lambda>(tree_node, inst). size tree_node)") (auto dest: smaller)
qed

text \<open>
  The nodes that \<open>classify\<close> passes through on its way down from \<open>n\<close>, stated
  without \<open>classify\<close>: a node is left for the child stored under the instance's value
  for the node's split feature.
\<close>

inductive visits :: "'a tree_node \<Rightarrow> 'a list \<Rightarrow> 'a tree_node \<Rightarrow> bool" where
  visits_here: "visits n inst n"
| visits_child:
    "split_feature n \<noteq> - 1 \<Longrightarrow> py_index inst (split_feature n) = Inr v
       \<Longrightarrow> map_of (children n) v = Some (Some c) \<Longrightarrow> visits c inst m \<Longrightarrow> visits n inst m"

code_pred visits .

text \<open>An internal node none of whose keys is the instance's value for its split feature
  (in particular when the instance is too short to have such a value).\<close>

definition unseen_value :: "'a tree_node \<Rightarrow> 'a list \<Rightarrow> bool" where
  "unseen_value n inst =
     (split_feature n \<noteq> - 1 \<and>
      (\<forall>k \<in> set (map fst (children n)). py_index inst (split_feature n) \<noteq> Inr k))"

subsection \<open>What the claims speak about\<close>

text \<open>
  The values that the examples have at index \<open>i\<close> (the labels when \<open>i = -1\<close>), and
  the examples that go from a node splitting on \<open>i\<close> to its child for the value \<open>v\<close>.
\<close>

definition observed_values :: "'a list list \<Rightarrow> int \<Rightarrow> 'a list" where
  "observed_values examples i =
     concat (map (\<lambda>example. case py_index example i of Inl err \<Rightarrow> [] | Inr v \<Rightarrow> [v]) examples)"

definition examples_with :: "'a list list \<Rightarrow> int \<Rightarrow> 'a \<Rightarrow> 'a list list" where
  "examples_with examples i v = filter (\<lambda>example. py_index example i = Inr v) examples"

definition class_count :: "'a list list \<Rightarrow> 'a \<Rightarrow> nat" where
  "class_count examples c = length (examples_with examples (- 1) c)"


text \<open>Every internal node splits on one of the feature indices \<open>fs\<close>, and the nodes
  below it on the others only.\<close>

fun splits_within :: "int list \<Rightarrow> 'a tree_node \<Rightarrow> bool" where
  "splits_within fs (TreeNode sf ch maj) =
     (sf = - 1 \<or>
      (sf \<in> set fs \<and>
       (\<forall>(v, child) \<in> set ch.
          case child of
            None \<Rightarrow> True
          | Some c \<Rightarrow> splits_within (removeAll sf fs) c)))"

text \<open>The number of splits on the longest path from the node down.\<close>

fun depth :: "'a tree_node \<Rightarrow> nat" where
  "depth (TreeNode sf ch maj) =
     (if ch = [] then 0
      else Suc (foldr max (map (\<lambda>(v, child). case child of None \<Rightarrow> 0 | Some c \<Rightarrow> depth c) ch) 0))"

text \<open>The shape of every node of a tree reached by \<open>examples\<close>: a leaf is marked by
  \<open>-1\<close> and has no children, an internal node has a split feature that is not negative
  and has children, and the majority class is a label of the examples that no other
  label outnumbers.\<close>

fun node_ok :: "'a list list \<Rightarrow> 'a tree_node \<Rightarrow> bool" where
  "node_ok examples (TreeNode sf ch maj) =
     ((sf = - 1 \<longleftrightarrow> ch = []) \<and>
      (sf \<noteq> - 1 \<longrightarrow> 0 \<le> sf \<and> ch \<noteq> []) \<and>
      maj \<in> set (observed_values examples (- 1)) \<and>
      (\<forall>c \<in> set (observed_values examples (- 1)).
          class_count examples c \<le> class_count examples maj) \<and>
      (\<forall>(v, child) \<in> set ch.
          case child of
            None \<Rightarrow> True
          | Some c \<Rightarrow> node_ok (examples_with examples sf v) c))"

section \<open>Properties\<close>

subsection \<open>The operations of the two arithmetics\<close>

lemma exact_arithmetic_simps:
  "ffloat exact_arithmetic n = of_int n"
  "fadd exact_arithmetic x y = x + y"
  "fmul exact_arithmetic x y = x * y"
  "fdiv exact_arithmetic x y = x / y"
  "flog exact_arithmetic x base = log base x"
  "fless exact_arithmetic x y \<longleftrightarrow> x < y"
  by (simp_all add: exact_arithmetic_def)

lemma binary64_simps:
  "ffloat binary64 n = binary64_round (of_int n)"
  "fadd binary64 x y = binary64_round (x + y)"
  "fmul binary64 x y = binary64_round (x * y)"
  "fdiv binary64 x y = binary64_round (x / y)"
  "flog binary64 x base = binary64_round (binary64_round (ln x) / binary64_round (ln base))"
  "fless binary64 x y \<longleftrightarrow> x < y"
  by (simp_all add: binary64_def)

subsection \<open>Classification\<close>

lemma py_index_error: "py_index xs i = Inl err \<Longrightarrow> err = IndexError"
  by (auto simp: py_index_def split: if_splits)

lemma classify_error_is_LookupError:
  "classify n inst = Inl err \<Longrightarrow> is_LookupError err"
proof (induction n inst rule: classify.induct)
  case (1 sf ch maj inst)
  then show ?case
    by (auto split: if_splits sum.splits option.splits dest: py_index_error)
qed

lemma classify_error_reaches_unseen:
  "classify n inst = Inl err \<Longrightarrow> \<exists>m. visits n inst m \<and> unseen_value m inst"
proof (induction n inst rule: classify.induct)
  case (1 sf ch maj inst)
  let ?n = "TreeNode sf ch maj"
  from "1.prems" have internal: "sf \<noteq> - 1"
    by (auto split: if_splits)
  show ?case
  proof (cases "py_index inst sf")
    case (Inl e)
    then have "unseen_value ?n inst"
      using internal by (simp add: unseen_value_def)
    then show ?thesis
      using visits_here by blast
  next
    case (Inr v)
    show ?thesis
    proof (cases "map_of ch v")
      case None
      then have "v \<notin> fst ` set ch"
        by (simp add: map_of_eq_None_iff)
      then have "unseen_value ?n inst"
        using internal Inr by (auto simp: unseen_value_def)
      then show ?thesis
        using visits_here by blast
    next
      case (Some child)
      show ?thesis
      proof (cases child)
        case None
        then show ?thesis
          using "1.prems" internal Inr Some by simp
      next
        case (Some c)
        then have lookup: "map_of ch v = Some (Some c)"
          using \<open>map_of ch v = Some child\<close> by simp
        then have "classify c inst = Inl err"
          using "1.prems" internal Inr by simp
        then obtain m where m: "visits c inst m" "unseen_value m inst"
          using "1.IH" [OF internal Inr lookup refl] by blast
        have "visits ?n inst m"
          using internal Inr lookup m(1) by (auto intro: visits_child)
        then show ?thesis
          using m(2) by blast
      qed
    qed
  qed
qed

lemma unseen_value_classify_error:
  "visits n inst m \<Longrightarrow> unseen_value m inst \<Longrightarrow> \<exists>err. classify n inst = Inl err"
proof (induction rule: visits.induct)
  case (visits_here n inst)
  obtain sf ch maj where n: "n = TreeNode sf ch maj"
    by (cases n)
  show ?case
  proof (cases "py_index inst sf")
    case (Inl e)
    then show ?thesis
      using visits_here n by (simp add: unseen_value_def)
  next
    case (Inr v)
    then have "v \<notin> fst ` set ch"
      using visits_here n by (auto simp: unseen_value_def)
    then have "map_of ch v = None"
      by (simp add: map_of_eq_None_iff)
    then show ?thesis
      using visits_here n Inr by (simp add: unseen_value_def)
  qed
next
  case (visits_child n inst v c m)
  obtain sf ch maj where n: "n = TreeNode sf ch maj"
    by (cases n)
  then show ?case
    using visits_child by simp
qed

text \<open>
  C4. \<open>classify\<close> raises exactly when its way down the tree comes to an internal node
  none of whose keys is the instance's value for the split feature of that node; what
  it raises is then a \<open>LookupError\<close> (the \<open>KeyError\<close> of the dictionary, or the
  \<open>IndexError\<close> of an instance too short to have the value); in every other case it
  returns a label.
\<close>

theorem classify_raises_iff_unseen_value:
  "((\<exists>err. classify n inst = Inl err) \<longleftrightarrow> (\<exists>m. visits n inst m \<and> unseen_value m inst))
   \<and> (\<forall>err. classify n inst = Inl err \<longrightarrow> is_LookupError err)
   \<and> (\<not> (\<exists>m. visits n inst m \<and> unseen_value m inst) \<longrightarrow> (\<exists>label. classify n inst = Inr label))"
proof -
  have iff: "(\<exists>err. classify n inst = Inl err) \<longleftrightarrow> (\<exists>m. visits n inst m \<and> unseen_value m inst)"
    using classify_error_reaches_unseen unseen_value_classify_error by blast
  have lookup: "\<forall>err. classify n inst = Inl err \<longrightarrow> is_LookupError err"
    using classify_error_is_LookupError by blast
  have "\<exists>label. classify n inst = Inr label"
    if "\<not> (\<exists>m. visits n inst m \<and> unseen_value m inst)"
    using that iff by (cases "classify n inst") auto
  then show ?thesis
    using iff lookup by blast
qed

text \<open>At the root of a small tree: the value \<open>Blue\<close> was never seen, \<open>Red\<close> leads
  to a leaf.\<close>

theorem classify_raises_iff_unseen_value_witness:
  "classify (TreeNode 0 [(''Red'', Some (TreeNode (- 1) [] ''No''))] ''Yes'') [''Blue''] = Inl KeyError
   \<and> is_LookupError KeyError
   \<and> (\<exists>m. visits (TreeNode 0 [(''Red'', Some (TreeNode (- 1) [] ''No''))] ''Yes'') [''Blue''] m
          \<and> unseen_value m [''Blue''])
   \<and> classify (TreeNode 0 [(''Red'', Some (TreeNode (- 1) [] ''No''))] ''Yes'') [''Red''] = Inr ''No''
   \<and> \<not> (\<exists>m. visits (TreeNode 0 [(''Red'', Some (TreeNode (- 1) [] ''No''))] ''Yes'') [''Red''] m
          \<and> unseen_value m [''Red''])"
proof -
  let ?n = "TreeNode 0 [(''Red'', Some (TreeNode (- 1) [] ''No''))] ''Yes''"
  have blue: "classify ?n [''Blue''] = Inl KeyError"
    by (simp add: py_index_def)
  have red: "classify ?n [''Red''] = Inr ''No''"
    by (simp add: py_index_def)
  show ?thesis
    using blue red
      classify_raises_iff_unseen_value [of ?n "[''Blue'']"]
      classify_raises_iff_unseen_value [of ?n "[''Red'']"]
    by auto
qed

text \<open>
  C5. At an internal node, when the instance's value for the split feature is a key of
  \<open>children\<close>: if it maps to \<open>None\<close>, \<open>classify\<close> returns the majority class of this
  very node; if it maps to a child, \<open>classify\<close> gives what it gives on that child.
\<close>

theorem classify_majority_fallback:
  assumes "split_feature n \<noteq> - 1"
    and "py_index inst (split_feature n) = Inr v"
  shows "(map_of (children n) v = Some None \<longrightarrow> classify n inst = Inr (majority_class_field n))
       \<and> (\<forall>c. map_of (children n) v = Some (Some c) \<longrightarrow> classify n inst = classify c inst)"
  using assms by (cases n) simp

theorem classify_majority_fallback_witness:
  "split_feature (TreeNode 1 [(''SUV'', None), (''Sports'', Some (TreeNode (- 1) [] ''No''))] ''Yes'') \<noteq> - 1
   \<and> py_index [''Red'', ''SUV''] 1 = Inr ''SUV''
   \<and> map_of (children (TreeNode 1 [(''SUV'', None), (''Sports'', Some (TreeNode (- 1) [] ''No''))] ''Yes'')) ''SUV''
       = Some None
   \<and> classify (TreeNode 1 [(''SUV'', None), (''Sports'', Some (TreeNode (- 1) [] ''No''))] ''Yes'')
         [''Red'', ''SUV''] = Inr ''Yes''
   \<and> py_index [''Red'', ''Sports''] 1 = Inr ''Sports''
   \<and> map_of (children (TreeNode 1 [(''SUV'', None), (''Sports'', Some (TreeNode (- 1) [] ''No''))] ''Yes'')) ''Sports''
       = Some (Some (TreeNode (- 1) [] ''No''))
   \<and> classify (TreeNode 1 [(''SUV'', None), (''Sports'', Some (TreeNode (- 1) [] ''No''))] ''Yes'')
         [''Red'', ''Sports''] = classify (TreeNode (- 1) [] ''No'') [''Red'', ''Sports'']"
proof -
  let ?n = "TreeNode 1 [(''SUV'', None), (''Sports'', Some (TreeNode (- 1) [] ''No''))] ''Yes''"
  have internal: "split_feature ?n \<noteq> - 1"
    by simp
  have suv: "py_index [''Red'', ''SUV''] (split_feature ?n) = Inr ''SUV''"
    by (simp add: py_index_def)
  have sports: "py_index [''Red'', ''Sports''] (split_feature ?n) = Inr ''Sports''"
    by (simp add: py_index_def)
  show ?thesis
    using classify_majority_fallback [OF internal suv] classify_majority_fallback [OF internal sports]
      suv sports
    by simp
qed

subsection \<open>Building the tree\<close>

text \<open>
  C9. \<open>build_tree\<close> on an empty list of examples returns \<open>None\<close>, and raises nothing.
\<close>

theorem build_tree_no_examples: "build_tree fl iter [] = Inr None"
  by (simp add: build_tree_def)

theorem build_tree_no_examples_witness: "build_tree exact_arithmetic remdups ([] :: string list list) = Inr None"
  using build_tree_no_examples [of exact_arithmetic remdups] by simp

subsection \<open>Columns, filters and the majority class\<close>

lemma column_observed_values:
  "column examples i = Inr xs \<Longrightarrow> observed_values examples i = xs"
proof (induction examples arbitrary: xs)
  case Nil
  then show ?case by (simp add: observed_values_def)
next
  case (Cons e es)
  then show ?case
    by (auto simp: observed_values_def split: sum.splits)
qed

lemma column_length: "column examples i = Inr xs \<Longrightarrow> length xs = length examples"
  by (induction examples arbitrary: xs) (auto split: sum.splits)

lemma column_count_list:
  "column examples i = Inr xs \<Longrightarrow> count_list xs c = length (examples_with examples i c)"
proof (induction examples arbitrary: xs)
  case Nil
  then show ?case by (simp add: examples_with_def)
next
  case (Cons e es)
  then show ?case
    by (auto simp: examples_with_def split: sum.splits)
qed

lemma filter_examples_Inr:
  "filter_examples examples i v = Inr sub \<Longrightarrow> sub = examples_with examples i v"
proof (induction examples arbitrary: sub)
  case Nil
  then show ?case by (simp add: examples_with_def)
next
  case (Cons e es)
  then show ?case
    by (auto simp: examples_with_def split: sum.splits)
qed





lemma foldl_max_key:
  "foldl (\<lambda>best y. if key best < key y then y else best) x xs \<in> set (x # xs)
   \<and> (\<forall>y \<in> set (x # xs). (key y :: nat) \<le> key (foldl (\<lambda>best y. if key best < key y then y else best) x xs))"
proof (induction xs arbitrary: x)
  case Nil
  then show ?case by simp
next
  case (Cons z zs)
  show ?case
  proof (cases "key x < key z")
    case True
    then show ?thesis
      using Cons [of z] by (auto intro: order_trans less_imp_le)
  next
    case False
    then show ?thesis
      using Cons [of x] by (auto intro: order_trans)
  qed
qed

lemma py_max_Inr:
  assumes "py_max key xs = Inr m"
  shows "m \<in> set xs" and "\<forall>y \<in> set xs. key y \<le> key m"
proof -
  obtain x zs where xs: "xs = x # zs"
    using assms by (cases xs) auto
  then have m: "m = foldl (\<lambda>best y. if key best < key y then y else best) x zs"
    using assms by simp
  show "m \<in> set xs" and "\<forall>y \<in> set xs. key y \<le> key m"
    unfolding m xs using foldl_max_key [of key x zs] by blast+
qed

lemma majority_class_Inr:
  assumes ok: "set_iter_ok iter"
    and maj: "majority_class iter examples = Inr m"
  shows "m \<in> set (observed_values examples (- 1))"
    and "\<forall>c \<in> set (observed_values examples (- 1)). class_count examples c \<le> class_count examples m"
    and "examples \<noteq> []"
proof -
  from maj obtain classes where col: "column examples (- 1) = Inr classes"
    and mx: "py_max (count_list classes) (iter classes) = Inr m"
    by (auto simp: majority_class_def split: sum.splits)
  have obs: "observed_values examples (- 1) = classes"
    using col by (rule column_observed_values)
  have it: "set (iter classes) = set classes"
    using ok by (simp add: set_iter_ok_def)
  have cnt: "count_list classes c = class_count examples c" for c
    using col by (simp add: column_count_list class_count_def)
  show "m \<in> set (observed_values examples (- 1))"
    using py_max_Inr(1) [OF mx] it obs by simp
  show "\<forall>c \<in> set (observed_values examples (- 1)). class_count examples c \<le> class_count examples m"
    using py_max_Inr(2) [OF mx] it obs cnt by simp
  have "classes \<noteq> []"
    using py_max_Inr(1) [OF mx] it by auto
  then show "examples \<noteq> []"
    using col by auto
qed

subsection \<open>Dictionaries and the loops of the builder\<close>

lemma dict_get_Inr: "dict_get d k = Inr v \<Longrightarrow> (k, v) \<in> set d"
  by (auto simp: dict_get_def split: option.splits dest: map_of_SomeD)

lemma dict_pop_Inr:
  assumes "dict_pop d k = Inr r"
  shows "k \<in> fst ` set d" and "map fst r = removeAll k (map fst d)" and "set r \<subseteq> set d"
proof -
  from assms obtain v where v: "map_of d k = Some v" and r: "r = AList.delete k d"
    by (auto simp: dict_pop_def split: option.splits)
  show "k \<in> fst ` set d"
    using v by (auto dest: map_of_SomeD intro: rev_image_eqI)
  show "map fst r = removeAll k (map fst d)"
    unfolding r by (rule AList.delete_keys)
  show "set r \<subseteq> set d"
    unfolding r by (auto simp: AList.delete_eq)
qed

lemma best_feature_loop_Inr:
  "best_feature_loop fl iter features examples fs b e = Inr r \<Longrightarrow> r = b \<or> r \<in> set fs"
proof (induction fs arbitrary: b e)
  case Nil
  then show ?case by simp
next
  case (Cons f fs)
  then show ?case
    by (fastforce split: sum.splits if_splits)
qed

lemma best_feature_Inr:
  "best_feature fl iter features examples = Inr r \<Longrightarrow> r = - 1 \<or> r \<in> fst ` set features"
  using best_feature_loop_Inr [of fl iter features examples "map fst features" "- 1" "ffloat fl 2" r]
  by (auto simp: best_feature_def)

text \<open>What \<open>build_tree_1\<close> has done when it returns a node.\<close>

declare build_tree_1.simps [simp del]

lemma build_tree_1_Inr:
  assumes "build_tree_1 fl iter examples features = Inr t"
  obtains (leaf) maj where "majority_class iter examples = Inr maj" and "t = TreeNode (- 1) [] maj"
  | (node) maj b remaining vs ch where
      "majority_class iter examples = Inr maj"
      and "features \<noteq> []"
      and "best_feature fl iter features examples = Inr b"
      and "dict_pop features b = Inr remaining"
      and "dict_get features b = Inr vs"
      and "build_children fl iter examples b remaining vs [] = Inr ch"
      and "t = TreeNode b ch maj"
  using assms by (auto simp: build_tree_1.simps split: sum.splits if_splits)

text \<open>What \<open>build_children\<close> has stored when it returns: under every value of the
  feature the tree built from the examples with that value, the other keys as they were.\<close>

lemma build_children_Inr:
  assumes "build_children fl iter examples b remaining vs acc = Inr ch"
  shows "(\<forall>v \<in> set vs. \<exists>c. build_tree_1 fl iter (examples_with examples b v) remaining = Inr c
                          \<and> map_of ch v = Some (Some c))
       \<and> (\<forall>v. v \<notin> set vs \<longrightarrow> map_of ch v = map_of acc v)
       \<and> fst ` set ch = fst ` set acc \<union> set vs
       \<and> (distinct (map fst acc) \<longrightarrow> distinct (map fst ch))"
  using assms
proof (induction vs arbitrary: acc)
  case Nil
  then show ?case by simp
next
  case (Cons v vs)
  from Cons.prems obtain child where
    child: "build_tree_1 fl iter (examples_with examples b v) remaining = Inr child"
    and rest: "build_children fl iter examples b remaining vs (AList.update v (Some child) acc) = Inr ch"
    by (auto split: sum.splits dest: filter_examples_Inr)
  let ?acc = "AList.update v (Some child) acc"
  note IH = Cons.IH [OF rest]
  have at_v: "map_of ch v = Some (Some child)"
  proof (cases "v \<in> set vs")
    case True
    then show ?thesis using IH child by auto
  next
    case False
    then have "map_of ch v = map_of ?acc v" using IH by blast
    then show ?thesis by (simp add: AList.update_conv')
  qed
  have a: "\<forall>w \<in> set (v # vs). \<exists>c. build_tree_1 fl iter (examples_with examples b w) remaining = Inr c
              \<and> map_of ch w = Some (Some c)"
    using IH child at_v by auto
  have b: "\<forall>w. w \<notin> set (v # vs) \<longrightarrow> map_of ch w = map_of acc w"
    using IH by (auto simp: AList.update_conv')
  have c: "fst ` set ch = fst ` set acc \<union> set (v # vs)"
    using IH by (auto simp: AList.dom_update)
  have d: "distinct (map fst acc) \<longrightarrow> distinct (map fst ch)"
    using IH by (auto simp: AList.distinct_update)
  show ?case
    using a b c d by blast
qed

lemma build_children_entries:
  assumes "build_children fl iter examples b remaining vs [] = Inr ch"
  shows "set (map fst ch) = set vs"
    and "\<And>v child. (v, child) \<in> set ch \<Longrightarrow>
           \<exists>c. child = Some c \<and> v \<in> set vs
               \<and> build_tree_1 fl iter (examples_with examples b v) remaining = Inr c"
proof -
  note facts = build_children_Inr [OF assms]
  show keys: "set (map fst ch) = set vs"
    using facts by simp
  have dist: "distinct (map fst ch)"
    using facts by simp
  show "\<exists>c. child = Some c \<and> v \<in> set vs
            \<and> build_tree_1 fl iter (examples_with examples b v) remaining = Inr c"
    if "(v, child) \<in> set ch" for v child
  proof -
    have "v \<in> set vs"
      using that keys by force
    moreover have "map_of ch v = Some child"
      using dist that by (rule map_of_is_SomeI)
    ultimately show ?thesis
      using facts by auto
  qed
qed

text \<open>The dictionary that \<open>build_tree\<close> makes: the feature indices in order, each with
  the values of its column.\<close>

lemma update_fresh: "k \<notin> fst ` set al \<Longrightarrow> AList.update k v al = al @ [(k, v)]"
  by (induction al) auto

lemma collect_features_Inr:
  assumes "collect_features iter examples fs acc = Inr features"
    and "distinct (map fst acc @ fs)"
  shows "map fst features = map fst acc @ fs
       \<and> (\<forall>(f, vs) \<in> set features. (f, vs) \<in> set acc \<or> (\<exists>col. column examples f = Inr col \<and> vs = iter col))"
  using assms
proof (induction fs arbitrary: acc)
  case Nil
  then show ?case by auto
next
  case (Cons f fs)
  from Cons.prems(1) obtain col where col: "column examples f = Inr col"
    and rest: "collect_features iter examples fs (AList.update f (iter col) acc) = Inr features"
    by (auto split: sum.splits)
  have fresh: "f \<notin> fst ` set acc"
    using Cons.prems(2) by auto
  then have upd: "AList.update f (iter col) acc = acc @ [(f, iter col)]"
    by (rule update_fresh)
  have "distinct (map fst (acc @ [(f, iter col)]) @ fs)"
    using Cons.prems(2) by auto
  from Cons.IH [OF rest [unfolded upd] this] show ?case
    using col by auto
qed

lemma dict_pop_length: "dict_pop d k = Inr r \<Longrightarrow> length r < length d"
proof -
  assume pop: "dict_pop d k = Inr r"
  then obtain v where "map_of d k = Some v" and r: "r = AList.delete k d"
    by (auto simp: dict_pop_def split: option.splits)
  then have "(k, v) \<in> set d"
    by (simp add: map_of_SomeD)
  then show ?thesis
    unfolding r AList.delete_eq by (rule length_filter_less) simp
qed


lemma build_tree_features:
  assumes "build_tree fl iter examples = Inr (Some t)"
  obtains features where
    "examples \<noteq> []"
    and "build_tree_1 fl iter examples features = Inr t"
    and "map fst features = map int [0..<length (hd examples) - 1]"
    and "\<forall>(f, vs) \<in> set features. \<exists>col. column examples f = Inr col \<and> vs = iter col"
proof -
  from assms obtain e0 es where ex: "examples = e0 # es"
    by (cases examples) (auto simp: build_tree_def)
  from assms obtain features where
    coll: "collect_features iter examples (map int [0..<length e0 - 1]) [] = Inr features"
    and built: "build_tree_1 fl iter examples features = Inr t"
    unfolding ex build_tree_def by (auto split: sum.splits)
  have "distinct (map fst ([] :: (int \<times> 'a list) list) @ map int [0..<length e0 - 1])"
    by (simp add: distinct_map)
  from collect_features_Inr [OF coll this]
  have "map fst features = map int [0..<length (hd examples) - 1]"
    and "\<forall>(f, vs) \<in> set features. \<exists>col. column examples f = Inr col \<and> vs = iter col"
    by (auto simp: ex)
  then show thesis
    using that ex built by blast
qed

subsection \<open>The keys of an internal node\<close>



subsection \<open>Evaluating the builder on a table\<close>

lemma log_2_half: "log 2 (1 / 2) = - 1"
  by (simp add: log_divide)

lemma log_2_quarter: "log 2 (1 / 4) = - 2"
proof -
  have "log 2 4 = (2 :: real)"
    using log_nat_power [of 2 2 2] by simp
  then show ?thesis by (simp add: log_divide)
qed

lemmas evaluation =
  exact_arithmetic_simps build_tree_def build_tree_1.simps py_index_def majority_class_def same_class_def
  best_feature_def split_entropy_def dict_get_def dict_pop_def entropy_def AList.delete_eq
  log_2_half log_2_quarter

lemma remdups_ok: "set_iter_ok remdups"
  by (simp add: set_iter_ok_def)

text \<open>A table of four examples with two features. Both features have the split
  entropy \<open>1/2\<close>, the first one is taken; under \<open>a\<close> the second feature separates the
  two classes.\<close>

lemma build_tree_two_levels:
  "build_tree exact_arithmetic remdups
     [[''a'', ''x'', ''Y''], [''a'', ''y'', ''N''], [''b'', ''x'', ''N''], [''b'', ''y'', ''N'']]
   = Inr (Some (TreeNode 0
        [(''a'', Some (TreeNode 1 [(''x'', Some (TreeNode (- 1) [] ''Y'')),
                                   (''y'', Some (TreeNode (- 1) [] ''N''))] ''Y'')),
         (''b'', Some (TreeNode (- 1) [] ''N''))] ''N''))"
  by (simp add: evaluation)


subsection \<open>One feature less at every level\<close>

lemma foldr_max_le: "\<forall>x \<in> set xs. x \<le> n \<Longrightarrow> foldr max xs 0 \<le> (n :: nat)"
  by (induction xs) auto

lemma build_tree_1_splits_within:
  "build_tree_1 fl iter examples features = Inr t
    \<Longrightarrow> splits_within (map fst features) t \<and> depth t \<le> length features"
proof (induction "length features" arbitrary: examples features t rule: less_induct)
  case less
  from less.prems show ?case
  proof (cases rule: build_tree_1_Inr)
    case (leaf maj)
    then show ?thesis by simp
  next
    case (node maj b remaining vs ch)
    have shorter: "length remaining < length features"
      using node(4) by (rule dict_pop_length)
    have key: "b \<in> set (map fst features)"
      using dict_pop_Inr(1) [OF node(4)] by simp
    have rest: "map fst remaining = removeAll b (map fst features)"
      using node(4) by (rule dict_pop_Inr(2))
    note entries = build_children_entries [OF node(6)]
    have below: "splits_within (removeAll b (map fst features)) c \<and> depth c \<le> length remaining"
      if "(v, Some c) \<in> set ch" for v c
    proof -
      have "build_tree_1 fl iter (examples_with examples b v) remaining = Inr c"
        using entries(2) [OF that] by simp
      with shorter show ?thesis
        unfolding rest [symmetric] by (rule less.hyps)
    qed
    have "\<forall>d \<in> set (map (\<lambda>(v, child). case child of None \<Rightarrow> 0 | Some c \<Rightarrow> depth c) ch).
            d \<le> length remaining"
      using below by (auto split: option.splits)
    then have "foldr max (map (\<lambda>(v, child). case child of None \<Rightarrow> 0 | Some c \<Rightarrow> depth c) ch) 0
                 \<le> length remaining"
      by (rule foldr_max_le)
    then have "depth (TreeNode b ch maj) \<le> length features"
      using shorter by simp
    moreover have "splits_within (map fst features) (TreeNode b ch maj)"
      using key below by (auto split: option.splits)
    ultimately show ?thesis
      unfolding node(7) by simp
  qed
qed

text \<open>What one level of the recursion does: the children of an internal node are built
  by \<open>build_tree_1\<close> from the examples with their value, and from the dictionary of
  features without the split feature, which is one entry shorter.\<close>

lemma build_tree_1_recursion:
  assumes "build_tree_1 fl iter examples features = Inr t"
    and "split_feature t \<noteq> - 1"
    and "distinct (map fst features)"
  shows "\<exists>remaining.
           map fst remaining = removeAll (split_feature t) (map fst features)
         \<and> Suc (length remaining) = length features
         \<and> (\<forall>(v, child) \<in> set (children t).
               \<exists>c. child = Some c
                 \<and> build_tree_1 fl iter (examples_with examples (split_feature t) v) remaining = Inr c)"
  using assms(1)
proof (cases rule: build_tree_1_Inr)
  case (leaf maj)
  then show ?thesis
    using assms(2) by simp
next
  case (node maj b remaining vs ch)
  have key: "b \<in> set (map fst features)"
    using dict_pop_Inr(1) [OF node(4)] by simp
  have rest: "map fst remaining = removeAll b (map fst features)"
    using node(4) by (rule dict_pop_Inr(2))
  have "map fst remaining = remove1 b (map fst features)"
    using assms(3) by (simp add: rest distinct_remove1_removeAll)
  then have "length (map fst remaining) = length (map fst features) - 1"
    using key by (simp only: length_remove1 if_True)
  moreover have "features \<noteq> []"
    using key by auto
  ultimately have "Suc (length remaining) = length features"
    by (cases features) simp_all
  moreover have "\<exists>c. child = Some c
        \<and> build_tree_1 fl iter (examples_with examples b v) remaining = Inr c"
    if "(v, child) \<in> set ch" for v child
    using build_children_entries(2) [OF node(6) that] by blast
  ultimately show ?thesis
    unfolding node(7) using rest by auto
qed

text \<open>
  C8. In a tree that \<open>build_tree\<close> returns, every internal node splits on one of the
  feature indices \<open>0, \<dots>, len(examples[0]) - 2\<close>, the nodes below it only on the
  indices that are left when its own is removed, and so on down every path; no path
  has more splits than there are features. And at every level of the recursion that
  returns an internal node, the children are built from the features without the split
  feature of the node: exactly one index less.
\<close>

theorem build_tree_splits_within:
  "(build_tree fl iter examples = Inr (Some t) \<longrightarrow>
      splits_within (map int [0..<length (hd examples) - 1]) t
      \<and> depth t \<le> length (hd examples) - 1)
   \<and> (build_tree_1 fl iter examples' features = Inr t' \<and> split_feature t' \<noteq> - 1
        \<and> distinct (map fst features) \<longrightarrow>
      (\<exists>remaining.
          map fst remaining = removeAll (split_feature t') (map fst features)
        \<and> Suc (length remaining) = length features
        \<and> (\<forall>(v, child) \<in> set (children t').
              \<exists>c. child = Some c
                \<and> build_tree_1 fl iter (examples_with examples' (split_feature t') v) remaining
                    = Inr c)))"
proof (intro conjI impI)
  assume "build_tree fl iter examples = Inr (Some t)"
  then obtain fs where
    built: "build_tree_1 fl iter examples fs = Inr t"
    and keys: "map fst fs = map int [0..<length (hd examples) - 1]"
    by (rule build_tree_features)
  have len: "length fs = length (hd examples) - 1"
    using arg_cong [OF keys, of length] by simp
  show "splits_within (map int [0..<length (hd examples) - 1]) t"
    using build_tree_1_splits_within [OF built] keys by simp
  show "depth t \<le> length (hd examples) - 1"
    using build_tree_1_splits_within [OF built] len by simp
next
  assume "build_tree_1 fl iter examples' features = Inr t' \<and> split_feature t' \<noteq> - 1
        \<and> distinct (map fst features)"
  then show "\<exists>remaining.
          map fst remaining = removeAll (split_feature t') (map fst features)
        \<and> Suc (length remaining) = length features
        \<and> (\<forall>(v, child) \<in> set (children t').
              \<exists>c. child = Some c
                \<and> build_tree_1 fl iter (examples_with examples' (split_feature t') v) remaining
                    = Inr c)"
    using build_tree_1_recursion by blast
qed

lemma build_tree_1_two_levels:
  "build_tree_1 exact_arithmetic remdups
     [[''a'', ''x'', ''Y''], [''a'', ''y'', ''N''], [''b'', ''x'', ''N''], [''b'', ''y'', ''N'']]
     [(0, [''a'', ''b'']), (1, [''x'', ''y''])]
   = Inr (TreeNode 0
        [(''a'', Some (TreeNode 1 [(''x'', Some (TreeNode (- 1) [] ''Y'')),
                                   (''y'', Some (TreeNode (- 1) [] ''N''))] ''Y'')),
         (''b'', Some (TreeNode (- 1) [] ''N''))] ''N'')"
  by (simp add: evaluation)

theorem build_tree_splits_within_witness:
  "build_tree exact_arithmetic remdups
        [[''a'', ''x'', ''Y''], [''a'', ''y'', ''N''], [''b'', ''x'', ''N''], [''b'', ''y'', ''N'']]
      = Inr (Some (TreeNode 0
          [(''a'', Some (TreeNode 1 [(''x'', Some (TreeNode (- 1) [] ''Y'')),
                                     (''y'', Some (TreeNode (- 1) [] ''N''))] ''Y'')),
           (''b'', Some (TreeNode (- 1) [] ''N''))] ''N''))
   \<and> splits_within [0, 1]
        (TreeNode 0
          [(''a'', Some (TreeNode 1 [(''x'', Some (TreeNode (- 1) [] ''Y'')),
                                     (''y'', Some (TreeNode (- 1) [] ''N''))] ''Y'')),
           (''b'', Some (TreeNode (- 1) [] ''N''))] ''N'')
   \<and> depth
        (TreeNode 0
          [(''a'', Some (TreeNode 1 [(''x'', Some (TreeNode (- 1) [] ''Y'')),
                                     (''y'', Some (TreeNode (- 1) [] ''N''))] ''Y'')),
           (''b'', Some (TreeNode (- 1) [] ''N''))] (''N'' :: string)) \<le> 2
   \<and> distinct (map fst [(0 :: int, [''a'', ''b'']), (1, [''x'', ''y''])])
   \<and> (\<exists>remaining.
          map fst remaining = [1 :: int]
        \<and> build_tree_1 exact_arithmetic remdups
              (examples_with
                 [[''a'', ''x'', ''Y''], [''a'', ''y'', ''N''], [''b'', ''x'', ''N''],
                  [''b'', ''y'', ''N'']] 0 ''a'')
              remaining
            = Inr (TreeNode 1 [(''x'', Some (TreeNode (- 1) [] ''Y'')),
                               (''y'', Some (TreeNode (- 1) [] ''N''))] ''Y''))"
proof -
  let ?examples = "[[''a'', ''x'', ''Y''], [''a'', ''y'', ''N''], [''b'', ''x'', ''N''],
                    [''b'', ''y'', ''N'']]"
  let ?features = "[(0 :: int, [''a'', ''b'']), (1, [''x'', ''y''])]"
  let ?child = "TreeNode 1 [(''x'', Some (TreeNode (- 1) [] ''Y'')),
                            (''y'', Some (TreeNode (- 1) [] ''N''))] ''Y''"
  let ?t = "TreeNode 0 [(''a'', Some ?child), (''b'', Some (TreeNode (- 1) [] ''N''))] ''N''"
  have indices: "map int [0..<length (hd ?examples) - 1] = [0, 1]"
    by (simp add: upt_rec)
  have distinct: "distinct (map fst ?features)"
    by simp
  have internal: "split_feature ?t \<noteq> - 1"
    by simp
  note whole = build_tree_splits_within [of exact_arithmetic remdups ?examples ?t ?examples ?features ?t]
  have returned: "build_tree exact_arithmetic remdups ?examples = Inr (Some ?t)"
    by (rule build_tree_two_levels)
  have tree: "splits_within [0, 1] ?t" "depth ?t \<le> 2"
    using whole [THEN conjunct1] returned indices by simp_all
  have level: "build_tree_1 exact_arithmetic remdups ?examples ?features = Inr ?t \<and> split_feature ?t \<noteq> - 1
          \<and> distinct (map fst ?features)"
    using build_tree_1_two_levels by simp
  from whole [THEN conjunct2, THEN mp, OF level] obtain remaining where
    keys: "map fst remaining = removeAll (split_feature ?t) (map fst ?features)"
    and below: "\<forall>(v, child) \<in> set (children ?t).
              \<exists>c. child = Some c
                \<and> build_tree_1 exact_arithmetic remdups (examples_with ?examples (split_feature ?t) v) remaining
                    = Inr c"
    by (elim exE conjE)
  have "(''a'', Some ?child) \<in> set (children ?t)"
    by simp
  with below have "\<exists>c. Some ?child = Some c
      \<and> build_tree_1 exact_arithmetic remdups (examples_with ?examples (split_feature ?t) ''a'') remaining = Inr c"
    by fast
  then have "build_tree_1 exact_arithmetic remdups (examples_with ?examples 0 ''a'') remaining = Inr ?child"
    by simp
  moreover have "map fst remaining = [1]"
    using keys by simp
  ultimately have level_below: "\<exists>remaining. map fst remaining = [1 :: int]
      \<and> build_tree_1 exact_arithmetic remdups (examples_with ?examples 0 ''a'') remaining = Inr ?child"
    by (intro exI conjI)
  show ?thesis
    by (intro conjI; fact)
qed

subsection \<open>The shape of the nodes\<close>

lemma build_tree_1_node_ok:
  assumes ok: "set_iter_ok iter"
  shows "build_tree_1 fl iter examples features = Inr t
    \<Longrightarrow> \<forall>(f, vs) \<in> set features. 0 \<le> f \<and> vs \<noteq> []
    \<Longrightarrow> node_ok examples t"
proof (induction "length features" arbitrary: examples features t rule: less_induct)
  case less
  from less.prems(1) show ?case
  proof (cases rule: build_tree_1_Inr)
    case (leaf maj)
    then show ?thesis
      using majority_class_Inr(1,2) [OF ok leaf(1)] by simp
  next
    case (node maj b remaining vs ch)
    have bvs: "(b, vs) \<in> set features"
      using node(5) by (rule dict_get_Inr)
    then have b: "0 \<le> b" and vs: "vs \<noteq> []"
      using less.prems(2) by auto
    have shorter: "length remaining < length features"
      using node(4) by (rule dict_pop_length)
    have sub: "set remaining \<subseteq> set features"
      using node(4) by (rule dict_pop_Inr(3))
    note entries = build_children_entries [OF node(6)]
    have ch: "ch \<noteq> []"
      using entries(1) vs by auto
    have below: "node_ok (examples_with examples b v) c" if "(v, Some c) \<in> set ch" for v c
    proof -
      have built: "build_tree_1 fl iter (examples_with examples b v) remaining = Inr c"
        using entries(2) [OF that] by simp
      have "\<forall>(f, ws) \<in> set remaining. 0 \<le> f \<and> ws \<noteq> []"
        using less.prems(2) sub by auto
      with shorter built show ?thesis
        by (rule less.hyps)
    qed
    show ?thesis
      unfolding node(7)
      using b ch below majority_class_Inr(1,2) [OF ok node(1)] by (auto split: option.splits)
  qed
qed

text \<open>
  C10. Every node of a tree that \<open>build_tree\<close> returns has \<open>split_feature = -1\<close>
  exactly when it has no children; an internal node has a split feature that is not
  negative and at least one child; and the majority class of a node is a label of the
  examples it was built from that occurs there at least as often as every other label.
\<close>

theorem build_tree_node_ok:
  assumes "set_iter_ok iter" and "build_tree fl iter examples = Inr (Some t)"
  shows "node_ok examples t"
proof -
  from assms(2) obtain features where
    nonempty: "examples \<noteq> []"
    and built: "build_tree_1 fl iter examples features = Inr t"
    and keys: "map fst features = map int [0..<length (hd examples) - 1]"
    and cols: "\<forall>(f, vs) \<in> set features. \<exists>col. column examples f = Inr col \<and> vs = iter col"
    by (rule build_tree_features)
  have "\<forall>(f, vs) \<in> set features. 0 \<le> f \<and> vs \<noteq> []"
  proof clarify
    fix f vs
    assume fvs: "(f, vs) \<in> set features"
    then have "f \<in> set (map fst features)"
      by force
    then have f: "0 \<le> f"
      unfolding keys by auto
    from fvs obtain col where col: "column examples f = Inr col" and vs: "vs = iter col"
      using cols by blast
    have "col \<noteq> []"
      using column_length [OF col] nonempty by auto
    then have "vs \<noteq> []"
      using vs assms(1) by (metis set_iter_ok_def set_empty)
    with f show "0 \<le> f \<and> vs \<noteq> []"
      by simp
  qed
  with assms(1) built show ?thesis
    by (rule build_tree_1_node_ok)
qed

theorem build_tree_node_ok_witness:
  "set_iter_ok (remdups :: string list \<Rightarrow> string list)
   \<and> build_tree exact_arithmetic remdups
        [[''a'', ''x'', ''Y''], [''a'', ''y'', ''N''], [''b'', ''x'', ''N''], [''b'', ''y'', ''N'']]
      = Inr (Some (TreeNode 0
          [(''a'', Some (TreeNode 1 [(''x'', Some (TreeNode (- 1) [] ''Y'')),
                                     (''y'', Some (TreeNode (- 1) [] ''N''))] ''Y'')),
           (''b'', Some (TreeNode (- 1) [] ''N''))] ''N''))
   \<and> node_ok
        [[''a'', ''x'', ''Y''], [''a'', ''y'', ''N''], [''b'', ''x'', ''N''], [''b'', ''y'', ''N'']]
        (TreeNode 0
          [(''a'', Some (TreeNode 1 [(''x'', Some (TreeNode (- 1) [] ''Y'')),
                                     (''y'', Some (TreeNode (- 1) [] ''N''))] ''Y'')),
           (''b'', Some (TreeNode (- 1) [] ''N''))] ''N'')"
  using build_tree_node_ok [OF remdups_ok build_tree_two_levels]
    remdups_ok build_tree_two_levels
  by blast

subsection \<open>The iteration order of small sets\<close>

lemma iter_length: "set_iter_ok iter \<Longrightarrow> length (iter xs) = card (set xs)"
  by (metis set_iter_ok_def distinct_card)

lemma iter_Nil: "set_iter_ok iter \<Longrightarrow> iter [] = []"
  using iter_length [of iter "[]"] by simp

lemma iter_single:
  assumes "set_iter_ok iter" and "set xs = {p}"
  shows "iter xs = [p]"
proof -
  have "length (iter xs) = 1"
    using iter_length [OF assms(1), of xs] assms(2) by simp
  then obtain z where z: "iter xs = [z]"
    by (cases "iter xs") auto
  have "set (iter xs) = {p}"
    using assms by (simp add: set_iter_ok_def)
  then show ?thesis
    using z by simp
qed

lemma iter_two:
  assumes "set_iter_ok iter" and "set xs = {p, q}" and "p \<noteq> q"
  shows "iter xs = [p, q] \<or> iter xs = [q, p]"
proof -
  have "length (iter xs) = 2"
    using iter_length [OF assms(1), of xs] assms(2,3) by simp
  then obtain u v where uv: "iter xs = [u, v]"
    by (auto simp: length_Suc_conv numeral_2_eq_2)
  have "set (iter xs) = {p, q}"
    using assms by (simp add: set_iter_ok_def)
  then have "{u, v} = {p, q}"
    using uv by simp
  then show ?thesis
    using uv by (auto simp: doubleton_eq_iff)
qed

lemma build_tree_1_empty:
  "set_iter_ok iter \<Longrightarrow> build_tree_1 fl iter [] features = Inl ValueError"
  by (simp add: build_tree_1.simps majority_class_def iter_Nil)

text \<open>
  C2 (where the code departs from it). The three examples below have the values
  \<open>x\<close> and \<open>y\<close> for the second feature, but the two examples with \<open>a\<close> for the first
  feature have only \<open>x\<close>. At their node \<open>build_tree_1\<close> goes through both \<open>x\<close> and
  \<open>y\<close>, calls itself on the empty list of examples with \<open>y\<close>, and \<open>majority_class\<close>
  raises \<open>ValueError\<close> there: no \<open>None\<close> is stored, the building fails, in whatever
  order the sets are iterated.
\<close>

theorem build_tree_empty_partition_raises:
  assumes "set_iter_ok iter"
  shows "build_tree exact_arithmetic iter [[''a'', ''x'', ''Y''], [''a'', ''x'', ''N''], [''b'', ''y'', ''Y'']]
           = Inl ValueError"
proof -
  note [simp] = iter_Nil [OF assms] iter_single [OF assms]
  have f0: "iter [''a'', ''a'', ''b''] = [''a'', ''b''] \<or> iter [''a'', ''a'', ''b''] = [''b'', ''a'']"
    by (rule iter_two [OF assms]) auto
  have f1: "iter [''x'', ''x'', ''y''] = [''x'', ''y''] \<or> iter [''x'', ''x'', ''y''] = [''y'', ''x'']"
    by (rule iter_two [OF assms]) auto
  have c3: "iter [''Y'', ''N'', ''Y''] = [''Y'', ''N''] \<or> iter [''Y'', ''N'', ''Y''] = [''N'', ''Y'']"
    by (rule iter_two [OF assms]) auto
  have c2: "iter [''Y'', ''N''] = [''Y'', ''N''] \<or> iter [''Y'', ''N''] = [''N'', ''Y'']"
    by (rule iter_two [OF assms]) auto
  from f0 f1 c3 c2 show ?thesis
    by (elim disjE) (simp_all add: evaluation)
qed

theorem build_tree_empty_partition_raises_witness:
  "set_iter_ok (remdups :: string list \<Rightarrow> string list)
   \<and> build_tree exact_arithmetic remdups [[''a'', ''x'', ''Y''], [''a'', ''x'', ''N''], [''b'', ''y'', ''Y'']]
       = Inl ValueError"
  using build_tree_empty_partition_raises [OF remdups_ok] remdups_ok by blast

subsection \<open>The starting value of \<open>best_feature\<close>\<close>

lemma log_2_eighth: "log 2 (1 / 8) = - 3"
proof -
  have "log 2 8 = (3 :: real)"
    using log_nat_power [of 2 2 3] by simp
  then show ?thesis by (simp add: log_divide)
qed

text \<open>Eight examples with eight different labels: the entropy is \<open>3\<close>, in whatever
  order the set of the labels is iterated.\<close>

lemma entropy_eight_classes:
  assumes "set_iter_ok iter"
  shows "entropy exact_arithmetic iter
           [[''a'', ''N''], [''a'', ''NE''], [''a'', ''E''], [''a'', ''SE''],
            [''a'', ''S''], [''a'', ''SW''], [''a'', ''W''], [''a'', ''NW'']] = Inr 3"
proof -
  let ?cs = "[''N'', ''NE'', ''E'', ''SE'', ''S'', ''SW'', ''W'', ''NW'']"
  have col: "column [[''a'', ''N''], [''a'', ''NE''], [''a'', ''E''], [''a'', ''SE''],
                     [''a'', ''S''], [''a'', ''SW''], [''a'', ''W''], [''a'', ''NW'']] (- 1) = Inr ?cs"
    by (simp add: py_index_def)
  have len: "length (iter ?cs) = 8"
    using iter_length [OF assms, of ?cs] by simp
  have once: "count_list ?cs c = 1" if "c \<in> set (iter ?cs)" for c
    using that assms by (auto simp: set_iter_ok_def)
  have "map (count_list ?cs) (iter ?cs) = map (\<lambda>c. 1) (iter ?cs)"
    using once by (simp cong: map_cong)
  also have "\<dots> = replicate 8 1"
    by (simp add: map_replicate_const len)
  also have "replicate 8 (1 :: nat) = [1, 1, 1, 1, 1, 1, 1, 1]"
    by (simp add: numeral_eq_Suc)
  finally show ?thesis
    unfolding entropy_def col by (simp add: exact_arithmetic_simps log_2_eighth)
qed

text \<open>
  C3 (where the code departs from it). \<open>best_feature\<close> starts from the entropy \<open>2.0\<close>
  and the index \<open>-1\<close>, and takes a feature only when its split entropy is less. With
  eight classes and one feature of a single value the split entropy is \<open>3\<close>: no
  feature is taken and \<open>-1\<close>, which is not a candidate, is returned.
\<close>

theorem best_feature_no_candidate:
  assumes "set_iter_ok iter"
  shows "best_feature exact_arithmetic iter [(0, [''a''])]
           [[''a'', ''N''], [''a'', ''NE''], [''a'', ''E''], [''a'', ''SE''],
            [''a'', ''S''], [''a'', ''SW''], [''a'', ''W''], [''a'', ''NW'']] = Inr (- 1)
       \<and> - 1 \<notin> fst ` set [(0 :: int, [''a''])]"
proof -
  have "filter_examples
           [[''a'', ''N''], [''a'', ''NE''], [''a'', ''E''], [''a'', ''SE''],
            [''a'', ''S''], [''a'', ''SW''], [''a'', ''W''], [''a'', ''NW'']] 0 ''a''
        = Inr [[''a'', ''N''], [''a'', ''NE''], [''a'', ''E''], [''a'', ''SE''],
               [''a'', ''S''], [''a'', ''SW''], [''a'', ''W''], [''a'', ''NW'']]"
    by (simp add: py_index_def)
  then show ?thesis
    by (simp add: best_feature_def split_entropy_def dict_get_def entropy_eight_classes [OF assms]
        exact_arithmetic_simps)
qed

theorem best_feature_no_candidate_witness:
  "set_iter_ok (remdups :: string list \<Rightarrow> string list)
   \<and> best_feature exact_arithmetic remdups [(0, [''a''])]
           [[''a'', ''N''], [''a'', ''NE''], [''a'', ''E''], [''a'', ''SE''],
            [''a'', ''S''], [''a'', ''SW''], [''a'', ''W''], [''a'', ''NW'']] = Inr (- 1)"
  using best_feature_no_candidate [OF remdups_ok] remdups_ok by blast

lemma build_tree_eight_classes:
  "build_tree exact_arithmetic remdups
           [[''a'', ''N''], [''a'', ''NE''], [''a'', ''E''], [''a'', ''SE''],
            [''a'', ''S''], [''a'', ''SW''], [''a'', ''W''], [''a'', ''NW'']] = Inl KeyError"
  by (simp add: evaluation log_2_eighth)

text \<open>When some feature has a split entropy below \<open>2\<close>, the loop does return the
  first feature of least split entropy; otherwise it returns the index it started from.\<close>

lemma best_feature_loop_first_minimum:
  assumes "\<forall>f \<in> set fs. split_entropy exact_arithmetic iter f features examples = Inr (se f)"
  shows "\<exists>r. best_feature_loop exact_arithmetic iter features examples fs b e = Inr r \<and>
           ((\<forall>f \<in> set fs. e \<le> se f) \<and> r = b \<or>
            (\<exists>pre post. fs = pre @ r # post \<and> se r < e
                \<and> (\<forall>f \<in> set pre. se r < se f) \<and> (\<forall>f \<in> set post. se r \<le> se f)))"
  using assms
proof (induction fs arbitrary: b e)
  case Nil
  then show ?case by simp
next
  case (Cons f fs)
  have here: "split_entropy exact_arithmetic iter f features examples = Inr (se f)"
    and later: "\<forall>g \<in> set fs. split_entropy exact_arithmetic iter g features examples = Inr (se g)"
    using Cons.prems by auto
  show ?case
  proof (cases "se f < e")
    case True
    from Cons.IH [OF later, of f "se f"] obtain r where
      r: "best_feature_loop exact_arithmetic iter features examples fs f (se f) = Inr r"
      and alt: "(\<forall>g \<in> set fs. se f \<le> se g) \<and> r = f \<or>
            (\<exists>pre post. fs = pre @ r # post \<and> se r < se f
                \<and> (\<forall>g \<in> set pre. se r < se g) \<and> (\<forall>g \<in> set post. se r \<le> se g))"
      by blast
    have res: "best_feature_loop exact_arithmetic iter features examples (f # fs) b e = Inr r"
      using here True r by (simp add: exact_arithmetic_simps)
    from alt show ?thesis
    proof
      assume "(\<forall>g \<in> set fs. se f \<le> se g) \<and> r = f"
      then have "f # fs = [] @ r # fs \<and> se r < e
                \<and> (\<forall>g \<in> set []. se r < se g) \<and> (\<forall>g \<in> set fs. se r \<le> se g)"
        using True by simp
      then show ?thesis
        using res by blast
    next
      assume "\<exists>pre post. fs = pre @ r # post \<and> se r < se f
                \<and> (\<forall>g \<in> set pre. se r < se g) \<and> (\<forall>g \<in> set post. se r \<le> se g)"
      then obtain pre post where "fs = pre @ r # post" and "se r < se f"
        and "\<forall>g \<in> set pre. se r < se g" and "\<forall>g \<in> set post. se r \<le> se g"
        by blast
      then have "f # fs = (f # pre) @ r # post \<and> se r < e
                \<and> (\<forall>g \<in> set (f # pre). se r < se g) \<and> (\<forall>g \<in> set post. se r \<le> se g)"
        using True by auto
      then show ?thesis
        using res by blast
    qed
  next
    case False
    from Cons.IH [OF later, of b e] obtain r where
      r: "best_feature_loop exact_arithmetic iter features examples fs b e = Inr r"
      and alt: "(\<forall>g \<in> set fs. e \<le> se g) \<and> r = b \<or>
            (\<exists>pre post. fs = pre @ r # post \<and> se r < e
                \<and> (\<forall>g \<in> set pre. se r < se g) \<and> (\<forall>g \<in> set post. se r \<le> se g))"
      by blast
    have res: "best_feature_loop exact_arithmetic iter features examples (f # fs) b e = Inr r"
      using here False r by (simp add: exact_arithmetic_simps)
    from alt show ?thesis
    proof
      assume "(\<forall>g \<in> set fs. e \<le> se g) \<and> r = b"
      then show ?thesis
        using res False by auto
    next
      assume "\<exists>pre post. fs = pre @ r # post \<and> se r < e
                \<and> (\<forall>g \<in> set pre. se r < se g) \<and> (\<forall>g \<in> set post. se r \<le> se g)"
      then obtain pre post where "fs = pre @ r # post" and "se r < e"
        and "\<forall>g \<in> set pre. se r < se g" and "\<forall>g \<in> set post. se r \<le> se g"
        by blast
      then have "f # fs = (f # pre) @ r # post \<and> se r < e
                \<and> (\<forall>g \<in> set (f # pre). se r < se g) \<and> (\<forall>g \<in> set post. se r \<le> se g)"
        using False by auto
      then show ?thesis
        using res by blast
    qed
  qed
qed

lemma best_feature_first_minimum:
  assumes "\<forall>f \<in> set (map fst features). split_entropy exact_arithmetic iter f features examples = Inr (se f)"
    and "\<exists>f \<in> set (map fst features). se f < 2"
  shows "\<exists>r pre post. best_feature exact_arithmetic iter features examples = Inr r
           \<and> map fst features = pre @ r # post
           \<and> (\<forall>f \<in> set pre. se r < se f) \<and> (\<forall>f \<in> set post. se r \<le> se f)"
proof -
  have two: "ffloat exact_arithmetic 2 = (2 :: real)"
    by (simp add: exact_arithmetic_simps)
  from best_feature_loop_first_minimum [OF assms(1), of "- 1" 2] obtain r where
    r: "best_feature exact_arithmetic iter features examples = Inr r"
    and alt: "(\<forall>f \<in> set (map fst features). 2 \<le> se f) \<and> r = - 1 \<or>
          (\<exists>pre post. map fst features = pre @ r # post \<and> se r < 2
              \<and> (\<forall>f \<in> set pre. se r < se f) \<and> (\<forall>f \<in> set post. se r \<le> se f))"
    unfolding best_feature_def two by blast
  from assms(2) have "\<not> (\<forall>f \<in> set (map fst features). 2 \<le> se f)"
    by (meson not_le)
  with alt r show ?thesis
    by blast
qed

end
